theory Spec2Isabelle
  imports Main "HOL-Library.Word"
begin

section \<open>The node family of \<open>src/include/struct.h\<close>\<close>

text \<open>
  The header declares six node structs (\<open>layout_root\<close>, \<open>dense\<close>, \<open>hashed\<close>,
  \<open>pointer\<close>, \<open>dynamic\<close>, \<open>indirect\<close>). Each member function is embedded as a
  function from the node's state (and, where it allocates, the allocator's state) to the
  returned value and the new state.

  Conventions of the embedding:
  \<^item> the preprocessor symbol \<open>TLANG_HOST\<close> is a value of type \<open>context\<close>: \<open>Host\<close> when
    it is defined, \<open>Device\<close> when it is not;
  \<^item> the header computes on an \<open>int\<close> in two places. One is \<open>i + 1\<close> in the host
    \<open>look_up\<close> of \<open>dynamic\<close> and \<open>indirect\<close>: there the index is a 32-bit word read as
    signed, and the sum wraps around as on two's complement hardware (C++ itself leaves
    the overflow at \<open>2^31 - 1\<close> undefined). The other is the increment of the counter
    by \<open>atomicAdd\<close>, which is declared outside the header and modelled from the spec
    as an exact increment. Everywhere else an \<open>int\<close> is only stored, compared or
    ignored, and is a mathematical integer, as the counter is;
  \<^item> a returned \<open>child_type *\<close> is a value of type \<open>ref\<close>;
  \<^item> the member functions are executed one after the other (the header's own words for
    the host path are "assuming serial").
\<close>

datatype "context" = Host | Device

text \<open>
  A child reference: \<open>nullptr\<close>, the address of a heap block handed out by the allocator,
  the address \<open>&children[i]\<close> / \<open>&data[i]\<close> of slot \<open>i\<close> of the node's own array
  (computed without a bounds check, as in the source), or the address \<open>&children\<close> of
  the single child embedded in a root.
\<close>

datatype ref = Null | Heap nat | Slot int | Embedded

text \<open>A C++ \<open>int\<close> on which the header computes; \<open>sint\<close> reads its value.\<close>

type_synonym int32 = "32 word"

subsection \<open>The structs and their member lists\<close>

datatype variant = Root | Dense | Hashed | Pointer | Dynamic | Indirect

datatype member = M_look_up | M_get_n | M_activate | M_clear | M_append

text \<open>The member functions each struct declares, in the order of the source.\<close>

fun members :: "variant \<Rightarrow> member list" where
  "members Root = [M_look_up, M_get_n, M_activate]"
| "members Dense = [M_look_up, M_get_n, M_activate]"
| "members Hashed = [M_look_up, M_activate, M_get_n]"
| "members Pointer = [M_look_up, M_get_n, M_activate]"
| "members Dynamic = [M_look_up, M_clear, M_append, M_activate, M_get_n]"
| "members Indirect = [M_get_n, M_look_up, M_clear]"

text \<open>\<open>static constexpr bool has_null\<close> of each struct.\<close>

fun has_null :: "variant \<Rightarrow> bool" where
  "has_null Root = False"
| "has_null Dense = False"
| "has_null Hashed = True"
| "has_null Pointer = True"
| "has_null Dynamic = False"
| "has_null Indirect = False"

subsection \<open>Allocation\<close>

text \<open>
  Modelled from the spec: the Block Allocator (\<open>taichi::Tlang::allocator()->alloc\<close> on the
  host, \<open>UnifiedAllocator::alloc\<close> on the device) is declared outside \<open>src/\<close>. The spec
  gives it one operation, \<open>alloc(size) -> address\<close>, callable repeatedly, whose
  exhaustion is fatal rather than a returned null. Its state is the number of blocks handed
  out so far; block \<open>k\<close> has address \<open>k\<close>, so every call returns a new address.
\<close>

type_synonym allocator = nat

definition alloc :: "allocator \<Rightarrow> nat \<times> allocator" where
  "alloc a = (a, Suc a)"

text \<open>
  \<open>allocate<T>()\<close>: one call of \<open>alloc\<close>, then placement \<open>new (addr) T()\<close>, which returns
  \<open>addr\<close>. Both preprocessor branches have this shape.
\<close>

definition allocate :: "allocator \<Rightarrow> ref \<times> allocator" where
  "allocate a = (case alloc a of (addr, a') \<Rightarrow> (Heap addr, a'))"

subsection \<open>\<open>layout_root\<close>\<close>

record 'c layout_root =
  root_children :: 'c

definition layout_root_look_up :: "'c layout_root \<Rightarrow> int \<Rightarrow> ref \<times> 'c layout_root" where
  "layout_root_look_up s i = (Embedded, s)"

definition layout_root_get_n :: "'c layout_root \<Rightarrow> int" where
  "layout_root_get_n s = 1"

definition layout_root_activate :: "'c layout_root \<Rightarrow> int \<Rightarrow> 'c layout_root" where
  "layout_root_activate s i = s"

subsection \<open>\<open>dense\<close>\<close>

text \<open>\<open>child_type children[n]\<close>: the template parameter \<open>n\<close> is the length of the list.\<close>

record 'c dense =
  dense_children :: "'c list"

definition dense_look_up :: "'c dense \<Rightarrow> int \<Rightarrow> ref \<times> 'c dense" where
  "dense_look_up s i = (Slot i, s)"

definition dense_get_n :: "'c dense \<Rightarrow> int" where
  "dense_get_n s = int (length (dense_children s))"

definition dense_activate :: "'c dense \<Rightarrow> int \<Rightarrow> 'c dense" where
  "dense_activate s i = s"

subsection \<open>\<open>hashed\<close>\<close>

text \<open>
  \<open>std::unordered_map<int, child_type *> data\<close> is the list of its (key, pointer)
  elements; every operation below keeps the keys distinct, as the container does. The
  member \<open>mut\<close> is never locked by the header and is left out.
\<close>

type_synonym umap = "(int \<times> ref) list"

record hashed =
  hashed_data :: umap

text \<open>\<open>data.find(i)\<close>: \<open>None\<close> stands for \<open>data.end()\<close>.\<close>

definition umap_find :: "umap \<Rightarrow> int \<Rightarrow> ref option" where
  "umap_find m k = map_of m k"

text \<open>\<open>data.insert(std::make_pair(i, ptr))\<close>: a key already present keeps its value.\<close>

definition umap_insert :: "umap \<Rightarrow> int \<Rightarrow> ref \<Rightarrow> umap" where
  "umap_insert m k v = (if umap_find m k = None then m @ [(k, v)] else m)"

text \<open>\<open>data[i]\<close>: an absent key is inserted with the value \<open>nullptr\<close>.\<close>

definition umap_index :: "umap \<Rightarrow> int \<Rightarrow> ref \<times> umap" where
  "umap_index m k =
     (case umap_find m k of None \<Rightarrow> (Null, m @ [(k, Null)]) | Some p \<Rightarrow> (p, m))"

text \<open>\<open>data.size()\<close>: the number of elements.\<close>

definition umap_size :: "umap \<Rightarrow> nat" where
  "umap_size m = length m"

definition hashed_init :: hashed where
  "hashed_init = \<lparr>hashed_data = []\<rparr>"

definition hashed_activate :: "hashed \<Rightarrow> int \<Rightarrow> allocator \<Rightarrow> hashed \<times> allocator" where
  "hashed_activate s i a =
     (if umap_find (hashed_data s) i = None
      then (case allocate a of
              (ptr, a') \<Rightarrow> (s\<lparr>hashed_data := umap_insert (hashed_data s) i ptr\<rparr>, a'))
      else (s, a))"

definition hashed_look_up ::
  "context \<Rightarrow> hashed \<Rightarrow> int \<Rightarrow> allocator \<Rightarrow> ref \<times> hashed \<times> allocator" where
  "hashed_look_up c s i a =
     (case c of
        Host \<Rightarrow>
          (case hashed_activate s i a of
             (s1, a1) \<Rightarrow>
               (case umap_index (hashed_data s1) i of
                  (p, m) \<Rightarrow> (p, s1\<lparr>hashed_data := m\<rparr>, a1)))
      | Device \<Rightarrow>
          (if umap_find (hashed_data s) i = None then (Null, s, a)
           else (case umap_index (hashed_data s) i of
                   (p, m) \<Rightarrow> (p, s\<lparr>hashed_data := m\<rparr>, a))))"


subsection \<open>\<open>pointer\<close>\<close>

record pointer =
  pointer_data :: ref

text \<open>
  The struct has no constructor; the header creates nodes by \<open>new (addr) T()\<close>
  (in \<open>allocate\<close>), which value-initialises a struct without one, so a new node holds
  \<open>nullptr\<close>.
\<close>

definition pointer_init :: pointer where
  "pointer_init = \<lparr>pointer_data = Null\<rparr>"

definition pointer_activate :: "pointer \<Rightarrow> int \<Rightarrow> allocator \<Rightarrow> pointer \<times> allocator" where
  "pointer_activate s i a =
     (if pointer_data s = Null
      then (case allocate a of (ptr, a') \<Rightarrow> (s\<lparr>pointer_data := ptr\<rparr>, a'))
      else (s, a))"

definition pointer_look_up ::
  "context \<Rightarrow> pointer \<Rightarrow> int \<Rightarrow> allocator \<Rightarrow> ref \<times> pointer \<times> allocator" where
  "pointer_look_up c s i a =
     (case c of
        Host \<Rightarrow> (case pointer_activate s i a of (s1, a1) \<Rightarrow> (pointer_data s1, s1, a1))
      | Device \<Rightarrow> (pointer_data s, s, a))"

definition pointer_get_n :: "pointer \<Rightarrow> int" where
  "pointer_get_n s = 1"

subsection \<open>\<open>dynamic\<close>\<close>

text \<open>
  \<open>child_type data[max_n]; int n;\<close>. The template parameter \<open>max_n\<close> is the length of the
  list \<open>dynamic_data\<close>.
\<close>

record 'a dynamic =
  dynamic_data :: "'a list"
  dynamic_n :: int

definition dynamic_max_n :: "'a dynamic \<Rightarrow> int" where
  "dynamic_max_n s = int (length (dynamic_data s))"

text \<open>
  The constructor \<open>dynamic() : n(0)\<close> sets the counter and leaves the array as it finds
  it: \<open>xs\<close> is the content of the \<open>max_n\<close> slots at construction.
\<close>

definition dynamic_init :: "'a list \<Rightarrow> 'a dynamic" where
  "dynamic_init xs = \<lparr>dynamic_data = xs, dynamic_n = 0\<rparr>"

text \<open>
  \<open>n = std::max(n, i + 1)\<close> under \<open>TLANG_HOST\<close>: the sum is the 32-bit sum, so for
  \<open>i = 2147483647\<close> it is \<open>-2147483648\<close>.
\<close>

definition dynamic_look_up :: "context \<Rightarrow> 'a dynamic \<Rightarrow> int32 \<Rightarrow> ref \<times> 'a dynamic" where
  "dynamic_look_up c s i =
     (case c of
        Host \<Rightarrow> (Slot (sint i), s\<lparr>dynamic_n := max (dynamic_n s) (sint (i + 1))\<rparr>)
      | Device \<Rightarrow> (Slot (sint i), s))"

definition dynamic_clear :: "'a dynamic \<Rightarrow> 'a dynamic" where
  "dynamic_clear s = s\<lparr>dynamic_n := 0\<rparr>"

text \<open>
  Modelled from the spec: \<open>atomicAdd\<close> is declared outside \<open>src/\<close>. The spec calls it a
  fetch-and-increment of the counter: applied to the content of the cell it returns the
  previous value, paired here with the cell's new content.
\<close>

definition atomicAdd :: "int \<Rightarrow> int \<Rightarrow> int \<times> int" where
  "atomicAdd cell v = (cell, cell + v)"

text \<open>
  The outcome of a member function that stores into the array. \<open>Done s\<close>: it returned
  with state \<open>s\<close>. \<open>StorePastEnd k s\<close>: it reached the assignment \<open>data[k] = t\<close> with \<open>k\<close>
  outside \<open>[0, max_n)\<close>, in state \<open>s\<close> (the counter already advanced). The source has no
  check there: this is not an error the code reports but the point where it writes
  outside the array, after which C++ leaves its behaviour undefined.
\<close>

datatype 's outcome = Done 's | StorePastEnd int 's

text \<open>
  \<open>data[atomicAdd(&n, 1)] = t\<close>, the same statement in both preprocessor branches.
\<close>

definition dynamic_append :: "'a dynamic \<Rightarrow> 'a \<Rightarrow> 'a dynamic outcome" where
  "dynamic_append s t =
     (case atomicAdd (dynamic_n s) 1 of
        (k, n') \<Rightarrow>
          (let s1 = s\<lparr>dynamic_n := n'\<rparr>
           in if 0 \<le> k \<and> k < dynamic_max_n s
              then Done (s1\<lparr>dynamic_data := (dynamic_data s)[nat k := t]\<rparr>)
              else StorePastEnd k s1))"

definition dynamic_activate :: "'a dynamic \<Rightarrow> int \<Rightarrow> 'a dynamic" where
  "dynamic_activate s i = s"

definition dynamic_get_n :: "'a dynamic \<Rightarrow> int" where
  "dynamic_get_n s = dynamic_n s"

subsection \<open>\<open>indirect\<close>\<close>

text \<open>\<open>int data[max_n]; std::atomic<int> n;\<close>\<close>

record indirect =
  indirect_data :: "int list"
  indirect_n :: int

definition indirect_init :: "int list \<Rightarrow> indirect" where
  "indirect_init xs = \<lparr>indirect_data = xs, indirect_n = 0\<rparr>"

definition indirect_get_n :: "indirect \<Rightarrow> int" where
  "indirect_get_n s = indirect_n s"

text \<open>\<open>n.store(std::max(n.load(), i + 1))\<close> under \<open>TLANG_HOST\<close>, with the 32-bit sum.\<close>

definition indirect_look_up :: "context \<Rightarrow> indirect \<Rightarrow> int32 \<Rightarrow> ref \<times> indirect" where
  "indirect_look_up c s i =
     (case c of
        Host \<Rightarrow> (Slot (sint i), s\<lparr>indirect_n := max (indirect_n s) (sint (i + 1))\<rparr>)
      | Device \<Rightarrow> (Slot (sint i), s))"

definition indirect_clear :: "indirect \<Rightarrow> indirect" where
  "indirect_clear s = s\<lparr>indirect_n := 0\<rparr>"

subsection \<open>Sequences of calls\<close>

text \<open>
  A client of a \<open>dynamic\<close> node issues member calls one after the other. A sequence stops
  at the first store outside the array, where C++ stops defining what happens.
\<close>

datatype 'a dynamic_op = D_look_up int32 | D_clear | D_append 'a | D_activate int

fun dynamic_exec :: "context \<Rightarrow> 'a dynamic \<Rightarrow> 'a dynamic_op \<Rightarrow> 'a dynamic outcome" where
  "dynamic_exec c s (D_look_up i) = Done (snd (dynamic_look_up c s i))"
| "dynamic_exec c s D_clear = Done (dynamic_clear s)"
| "dynamic_exec c s (D_append t) = dynamic_append s t"
| "dynamic_exec c s (D_activate i) = Done (dynamic_activate s i)"

fun dynamic_run :: "context \<Rightarrow> 'a dynamic \<Rightarrow> 'a dynamic_op list \<Rightarrow> 'a dynamic outcome" where
  "dynamic_run c s [] = Done s"
| "dynamic_run c s (x # xs) =
     (case dynamic_exec c s x of
        Done s' \<Rightarrow> dynamic_run c s' xs
      | StorePastEnd k s' \<Rightarrow> StorePastEnd k s')"

text \<open>The state in which a sequence ended, however it ended.\<close>

fun final :: "'s outcome \<Rightarrow> 's" where
  "final (Done s) = s"
| "final (StorePastEnd k s) = s"

text \<open>The call is anything but a \<open>look_up\<close> with an index of \<open>m\<close> or more.\<close>

fun look_up_below :: "int \<Rightarrow> 'a dynamic_op \<Rightarrow> bool" where
  "look_up_below m (D_look_up i) = (sint i < m)"
| "look_up_below m x = True"

text \<open>
  The slot indices that successive \<open>append\<close> calls obtain from \<open>atomicAdd\<close>, in the order
  of the calls.
\<close>

fun dynamic_reserved :: "'a dynamic \<Rightarrow> 'a list \<Rightarrow> int list" where
  "dynamic_reserved s [] = []"
| "dynamic_reserved s (t # ts) =
     fst (atomicAdd (dynamic_n s) 1) #
       (case dynamic_append s t of
          Done s' \<Rightarrow> dynamic_reserved s' ts
        | StorePastEnd k s' \<Rightarrow> [])"

text \<open>
  A client of a \<open>hashed\<close> or \<open>pointer\<close> node: a sequence of \<open>look_up\<close> and \<open>activate\<close>
  calls, threading the node and the allocator it draws from.
\<close>

datatype node_op = N_look_up int | N_activate int

fun hashed_exec :: "context \<Rightarrow> hashed \<times> allocator \<Rightarrow> node_op \<Rightarrow> hashed \<times> allocator" where
  "hashed_exec c (s, a) (N_look_up i) = snd (hashed_look_up c s i a)"
| "hashed_exec c (s, a) (N_activate i) = hashed_activate s i a"

definition hashed_run ::
  "context \<Rightarrow> hashed \<times> allocator \<Rightarrow> node_op list \<Rightarrow> hashed \<times> allocator" where
  "hashed_run c sa ops = foldl (hashed_exec c) sa ops"

fun pointer_exec :: "context \<Rightarrow> pointer \<times> allocator \<Rightarrow> node_op \<Rightarrow> pointer \<times> allocator" where
  "pointer_exec c (s, a) (N_look_up i) = snd (pointer_look_up c s i a)"
| "pointer_exec c (s, a) (N_activate i) = pointer_activate s i a"

definition pointer_run ::
  "context \<Rightarrow> pointer \<times> allocator \<Rightarrow> node_op list \<Rightarrow> pointer \<times> allocator" where
  "pointer_run c sa ops = foldl (pointer_exec c) sa ops"

text \<open>
  The index a call asks to activate: every \<open>activate(i)\<close>, and on the host every
  \<open>look_up(i)\<close>, whose first statement is \<open>activate(i)\<close>.
\<close>

fun activates :: "context \<Rightarrow> node_op \<Rightarrow> int list" where
  "activates c (N_activate i) = [i]"
| "activates Host (N_look_up i) = [i]"
| "activates Device (N_look_up i) = []"

definition activated :: "context \<Rightarrow> node_op list \<Rightarrow> int list" where
  "activated c ops = concat (map (activates c) ops)"

text \<open>
  The test of the spec's first property: \<open>activate(i)\<close>, then \<open>look_up(i)\<close> twice; the
  result is the pair of the two references returned. \<open>indirect\<close> declares no
  \<open>activate\<close>, so there is no such test for it.
\<close>

definition layout_root_twice :: "'c layout_root \<Rightarrow> int \<Rightarrow> ref \<times> ref" where
  "layout_root_twice s i =
     (case layout_root_look_up (layout_root_activate s i) i of
        (r1, s1) \<Rightarrow> (case layout_root_look_up s1 i of (r2, s2) \<Rightarrow> (r1, r2)))"

definition dense_twice :: "'c dense \<Rightarrow> int \<Rightarrow> ref \<times> ref" where
  "dense_twice s i =
     (case dense_look_up (dense_activate s i) i of
        (r1, s1) \<Rightarrow> (case dense_look_up s1 i of (r2, s2) \<Rightarrow> (r1, r2)))"

definition hashed_twice :: "context \<Rightarrow> hashed \<Rightarrow> int \<Rightarrow> allocator \<Rightarrow> ref \<times> ref" where
  "hashed_twice c s i a =
     (case hashed_activate s i a of
        (s0, a0) \<Rightarrow>
          (case hashed_look_up c s0 i a0 of
             (r1, s1, a1) \<Rightarrow> (case hashed_look_up c s1 i a1 of (r2, s2, a2) \<Rightarrow> (r1, r2))))"

definition pointer_twice :: "context \<Rightarrow> pointer \<Rightarrow> int \<Rightarrow> allocator \<Rightarrow> ref \<times> ref" where
  "pointer_twice c s i a =
     (case pointer_activate s i a of
        (s0, a0) \<Rightarrow>
          (case pointer_look_up c s0 i a0 of
             (r1, s1, a1) \<Rightarrow> (case pointer_look_up c s1 i a1 of (r2, s2, a2) \<Rightarrow> (r1, r2))))"

definition dynamic_twice :: "context \<Rightarrow> 'a dynamic \<Rightarrow> int32 \<Rightarrow> ref \<times> ref" where
  "dynamic_twice c s i =
     (case dynamic_look_up c (dynamic_activate s (sint i)) i of
        (r1, s1) \<Rightarrow> (case dynamic_look_up c s1 i of (r2, s2) \<Rightarrow> (r1, r2)))"

subsection \<open>Invariant of a \<open>hashed\<close> node\<close>

definition hashed_keys :: "hashed \<Rightarrow> int list" where
  "hashed_keys s = map fst (hashed_data s)"

text \<open>A reference is the address of a block the allocator has handed out.\<close>

fun heap_below :: "nat \<Rightarrow> ref \<Rightarrow> bool" where
  "heap_below a (Heap k) = (k < a)"
| "heap_below a r = False"

text \<open>The keys are distinct and every recorded pointer is an allocated block.\<close>

definition hashed_inv :: "hashed \<Rightarrow> allocator \<Rightarrow> bool" where
  "hashed_inv s a \<longleftrightarrow>
     distinct (hashed_keys s) \<and> list_all (\<lambda>kv. heap_below a (snd kv)) (hashed_data s)"

section \<open>Properties of \<open>dynamic\<close> and \<open>indirect\<close>\<close>

subsection \<open>One \<open>append\<close>\<close>

lemma append_in_range:
  assumes "dynamic_n s = int k" and "k < length (dynamic_data s)"
  shows "dynamic_append s t =
           Done \<lparr>dynamic_data = (dynamic_data s)[k := t], dynamic_n = int (Suc k)\<rparr>"
  using assms by (simp add: dynamic_append_def atomicAdd_def dynamic_max_n_def)

lemma append_past_end:
  assumes "dynamic_n s = int k" and "length (dynamic_data s) \<le> k"
  shows "dynamic_append s t =
           StorePastEnd (int k) \<lparr>dynamic_data = dynamic_data s, dynamic_n = int (Suc k)\<rparr>"
  using assms by (simp add: dynamic_append_def atomicAdd_def dynamic_max_n_def)

subsection \<open>The counter stays within the array while every call does\<close>

lemma sint_succ_le: "sint (i + 1 :: int32) \<le> sint i + 1"
proof -
  have "- (2 ^ 31) \<le> sint i + 1"
    using sint_ge[of i] by simp
  then have "signed_take_bit 31 (sint i + 1) \<le> sint i + 1"
    by (simp only: signed_take_bit_int_less_eq_self_iff)
  then show ?thesis by (simp add: sint_word_ariths)
qed

lemma sint_succ_eq:
  assumes "sint i < 2147483647"
  shows "sint (i + 1 :: int32) = sint i + 1"
proof -
  have "- (2 ^ 31) \<le> sint i + 1" using sint_ge[of i] by simp
  moreover have "sint i + 1 < 2 ^ 31" using assms by simp
  ultimately have "signed_take_bit 31 (sint i + 1) = sint i + 1"
    by (simp only: signed_take_bit_int_eq_self)
  then show ?thesis by (simp add: sint_word_ariths)
qed

lemma exec_counter_outcome:
  assumes "c = Host \<longrightarrow> look_up_below (dynamic_max_n s) x"
    and "0 \<le> dynamic_n s" and "dynamic_n s \<le> dynamic_max_n s"
  shows "case dynamic_exec c s x of
           Done s' \<Rightarrow> 0 \<le> dynamic_n s' \<and> dynamic_n s' \<le> dynamic_max_n s'
                      \<and> dynamic_max_n s' = dynamic_max_n s
         | StorePastEnd k s' \<Rightarrow> k = dynamic_max_n s \<and> dynamic_n s' = dynamic_max_n s + 1"
proof (cases x)
  case (D_look_up i)
  show ?thesis
  proof (cases c)
    case Host
    with assms(1) D_look_up have "sint i < dynamic_max_n s" by simp
    with sint_succ_le[of i] have "sint (i + 1) \<le> dynamic_max_n s" by linarith
    with assms(2,3) show ?thesis
      by (simp add: D_look_up Host dynamic_look_up_def dynamic_max_n_def)
  next
    case Device
    with assms(2,3) show ?thesis by (simp add: D_look_up dynamic_look_up_def)
  qed
next
  case D_clear
  then show ?thesis by (simp add: dynamic_clear_def dynamic_max_n_def)
next
  case (D_append t)
  with assms(2,3) show ?thesis
    by (auto simp: dynamic_append_def atomicAdd_def dynamic_max_n_def Let_def)
next
  case (D_activate i)
  with assms(2,3) show ?thesis by (simp add: dynamic_activate_def)
qed

lemma run_counter_outcome:
  assumes "c = Host \<longrightarrow> list_all (look_up_below (dynamic_max_n s)) ops"
    and "0 \<le> dynamic_n s" and "dynamic_n s \<le> dynamic_max_n s"
  shows "case dynamic_run c s ops of
           Done s' \<Rightarrow> 0 \<le> dynamic_n s' \<and> dynamic_n s' \<le> dynamic_max_n s'
                      \<and> dynamic_max_n s' = dynamic_max_n s
         | StorePastEnd k s' \<Rightarrow> k = dynamic_max_n s \<and> dynamic_n s' = dynamic_max_n s + 1"
  using assms
proof (induction ops arbitrary: s)
  case Nil
  then show ?case by simp
next
  case (Cons x xs)
  from Cons.prems(1) have b: "c = Host \<longrightarrow> look_up_below (dynamic_max_n s) x" by simp
  note step = exec_counter_outcome[OF b Cons.prems(2,3)]
  show ?case
  proof (cases "dynamic_exec c s x")
    case (Done s1)
    with step have i1: "0 \<le> dynamic_n s1" "dynamic_n s1 \<le> dynamic_max_n s1"
      "dynamic_max_n s1 = dynamic_max_n s"
      by simp_all
    from Cons.prems(1) i1(3)
    have "c = Host \<longrightarrow> list_all (look_up_below (dynamic_max_n s1)) xs" by simp
    from Cons.IH[OF this i1(1,2)] i1(3) Done show ?thesis
      by (cases "dynamic_run c s1 xs") simp_all
  next
    case (StorePastEnd k s1)
    with step show ?thesis by simp
  qed
qed

text \<open>
  C1, as the claim states it, fails. \<open>append\<close> has no capacity check and the host
  \<open>look_up\<close> no index check: on a node with \<open>max_n = 2\<close>, three appends end with the
  counter at 3 (and the third store outside the array), and one host \<open>look_up(2)\<close> sets
  the counter to 3 without storing anything.
\<close>

theorem dynamic_get_n_exceeds_max_n:
  "\<not> dynamic_get_n (final (dynamic_run Device (dynamic_init [0, 0 :: int])
                             [D_append 7, D_append 8, D_append 9]))
       \<le> dynamic_max_n (final (dynamic_run Device (dynamic_init [0, 0 :: int])
                                 [D_append 7, D_append 8, D_append 9]))
   \<and> \<not> dynamic_get_n (final (dynamic_run Host (dynamic_init [0, 0 :: int]) [D_look_up 2]))
       \<le> dynamic_max_n (final (dynamic_run Host (dynamic_init [0, 0 :: int]) [D_look_up 2]))"
  by (simp add: dynamic_init_def dynamic_append_def atomicAdd_def dynamic_max_n_def
      dynamic_get_n_def dynamic_look_up_def)

text \<open>
  C1, amended: for the Dynamic variant, on a freshly constructed node and for every
  sequence of \<open>append\<close>, \<open>look_up\<close>, \<open>clear\<close> and \<open>activate\<close> calls whose \<open>look_up\<close>
  indices are below \<open>max_n\<close> (needed on the host only), \<open>get_n()\<close> is between 0 and
  \<open>max_n\<close> after every call, up to the first \<open>append\<close> issued with the counter already at
  \<open>max_n\<close>; that \<open>append\<close> is not checked: it stores at index \<open>max_n\<close>, outside the array,
  with the counter at \<open>max_n + 1\<close>.
\<close>

theorem dynamic_get_n_bounded_when_in_range:
  assumes "c = Host \<longrightarrow> list_all (look_up_below (int (length xs))) ops"
  shows "case dynamic_run c (dynamic_init xs) ops of
           Done s \<Rightarrow> 0 \<le> dynamic_get_n s \<and> dynamic_get_n s \<le> dynamic_max_n s
                     \<and> dynamic_max_n s = int (length xs)
         | StorePastEnd k s \<Rightarrow> k = int (length xs) \<and> dynamic_get_n s = int (length xs) + 1"
proof -
  have m: "dynamic_max_n (dynamic_init xs) = int (length xs)"
    by (simp add: dynamic_max_n_def dynamic_init_def)
  have b: "c = Host \<longrightarrow> list_all (look_up_below (dynamic_max_n (dynamic_init xs))) ops"
    using assms m by simp
  have z: "0 \<le> dynamic_n (dynamic_init xs)"
    "dynamic_n (dynamic_init xs) \<le> dynamic_max_n (dynamic_init xs)"
    by (simp_all add: dynamic_init_def dynamic_max_n_def)
  from run_counter_outcome[OF b z] m
  show ?thesis
    by (cases "dynamic_run c (dynamic_init xs) ops") (simp_all add: dynamic_get_n_def)
qed

theorem dynamic_get_n_bounded_when_in_range_witness:
  "list_all (look_up_below (int (length [0, 0, 0 :: int])))
         [D_append 7, D_look_up 2, D_clear, D_append (8 :: int), D_activate 5, D_look_up 1]
   \<and> dynamic_run Host (dynamic_init [0, 0, 0 :: int])
       [D_append 7, D_look_up 2, D_clear, D_append 8, D_activate 5, D_look_up 1]
     = Done \<lparr>dynamic_data = [8, 0, 0], dynamic_n = 2\<rparr>
   \<and> dynamic_get_n \<lparr>dynamic_data = [8, 0, 0 :: int], dynamic_n = 2\<rparr>
       \<le> dynamic_max_n \<lparr>dynamic_data = [8, 0, 0 :: int], dynamic_n = 2\<rparr>"
proof -
  have r: "dynamic_run Host (dynamic_init [0, 0, 0 :: int])
       [D_append 7, D_look_up 2, D_clear, D_append 8, D_activate 5, D_look_up 1]
     = Done \<lparr>dynamic_data = [8, 0, 0], dynamic_n = 2\<rparr>"
    by (simp add: dynamic_init_def dynamic_append_def atomicAdd_def dynamic_max_n_def
        dynamic_look_up_def dynamic_clear_def dynamic_activate_def)
  have b: "list_all (look_up_below (int (length [0, 0, 0 :: int])))
         [D_append 7, D_look_up 2, D_clear, D_append (8 :: int), D_activate 5, D_look_up 1]"
    by simp
  from dynamic_get_n_bounded_when_in_range[of Host "[0, 0, 0 :: int]"
      "[D_append 7, D_look_up 2, D_clear, D_append 8, D_activate 5, D_look_up 1]"] r b
  show ?thesis by simp
qed

subsection \<open>Runs of \<open>append\<close>\<close>

lemma take_Suc_update:
  "k < length xs \<Longrightarrow> take (Suc k) (xs[k := v]) = take k xs @ [v]"
  by (simp add: take_Suc_conv_app_nth)

lemma run_appends:
  assumes "dynamic_n s = int k" and "k + length vs \<le> length (dynamic_data s)"
  shows "dynamic_run c s (map D_append vs) =
           Done \<lparr>dynamic_data =
                    take k (dynamic_data s) @ vs @ drop (k + length vs) (dynamic_data s),
                 dynamic_n = int (k + length vs)\<rparr>"
  using assms
proof (induction vs arbitrary: s k)
  case Nil
  then show ?case by simp
next
  case (Cons v vs)
  let ?s1 = "\<lparr>dynamic_data = (dynamic_data s)[k := v], dynamic_n = int (Suc k)\<rparr>"
  from Cons.prems have k: "k < length (dynamic_data s)" by simp
  have a: "dynamic_append s v = Done ?s1"
    by (rule append_in_range[OF Cons.prems(1) k])
  have n1: "dynamic_n ?s1 = int (Suc k)" by simp
  have l1: "Suc k + length vs \<le> length (dynamic_data ?s1)" using Cons.prems(2) by simp
  have "dynamic_run c s (map D_append (v # vs)) = dynamic_run c ?s1 (map D_append vs)"
    by (simp add: a)
  also have "\<dots> = Done \<lparr>dynamic_data = take (Suc k) (dynamic_data ?s1) @ vs
                           @ drop (Suc k + length vs) (dynamic_data ?s1),
                         dynamic_n = int (Suc k + length vs)\<rparr>"
    by (rule Cons.IH[OF n1 l1])
  also have "take (Suc k) (dynamic_data ?s1) = take k (dynamic_data s) @ [v]"
    using k by (simp add: take_Suc_update)
  also have "drop (Suc k + length vs) (dynamic_data ?s1)
             = drop (k + length (v # vs)) (dynamic_data s)"
    by simp
  finally show ?case by simp
qed

lemma reserved_appends:
  assumes "dynamic_n s = int k" and "k + length vs \<le> length (dynamic_data s)"
  shows "dynamic_reserved s vs = map int [k ..< k + length vs]"
  using assms
proof (induction vs arbitrary: s k)
  case Nil
  then show ?case by simp
next
  case (Cons v vs)
  let ?s1 = "\<lparr>dynamic_data = (dynamic_data s)[k := v], dynamic_n = int (Suc k)\<rparr>"
  from Cons.prems have k: "k < length (dynamic_data s)" by simp
  have a: "dynamic_append s v = Done ?s1"
    by (rule append_in_range[OF Cons.prems(1) k])
  have n1: "dynamic_n ?s1 = int (Suc k)" by simp
  have l1: "Suc k + length vs \<le> length (dynamic_data ?s1)" using Cons.prems(2) by simp
  have "dynamic_reserved ?s1 vs = map int [Suc k ..< Suc k + length vs]"
    by (rule Cons.IH[OF n1 l1])
  moreover have "[k ..< k + length (v # vs)] = k # [Suc k ..< Suc k + length vs]"
    using upt_conv_Cons[of k "k + length (v # vs)"] by simp
  ultimately show ?case
    using Cons.prems(1) by (simp add: a atomicAdd_def)
qed

text \<open>
  C2, as the claim states it, fails in its second half. On a node with \<open>max_n = 2\<close> the
  third \<open>append\<close> is not rejected: it advances the counter to 3 and reaches the store
  \<open>data[2] = 9\<close>, one slot past the end of the array.
\<close>

theorem dynamic_append_overflow_not_rejected:
  "dynamic_run Host (dynamic_init [0, 0 :: int]) [D_append 7, D_append 8, D_append 9]
     = StorePastEnd 2 \<lparr>dynamic_data = [7, 8], dynamic_n = 3\<rparr>"
  by (simp add: dynamic_init_def dynamic_append_def atomicAdd_def dynamic_max_n_def)

text \<open>
  C2, amended: on a fresh Dynamic node of capacity \<open>max_n\<close>, appending exactly \<open>max_n\<close>
  values succeeds, fills the array with them in order and leaves \<open>get_n() == max_n\<close>;
  the code does not check the capacity, so the next \<open>append\<close> advances the counter to
  \<open>max_n + 1\<close> and stores at index \<open>max_n\<close>, past the end of the array. Keeping within
  \<open>max_n\<close> is left to the caller.
\<close>

theorem dynamic_append_full_then_past_end:
  assumes "length vs = length xs"
  shows "dynamic_run c (dynamic_init xs) (map D_append vs)
           = Done \<lparr>dynamic_data = vs, dynamic_n = int (length xs)\<rparr>
       \<and> dynamic_get_n \<lparr>dynamic_data = vs, dynamic_n = int (length xs)\<rparr>
           = dynamic_max_n \<lparr>dynamic_data = vs, dynamic_n = int (length xs)\<rparr>
       \<and> dynamic_append \<lparr>dynamic_data = vs, dynamic_n = int (length xs)\<rparr> t
           = StorePastEnd (int (length xs))
               \<lparr>dynamic_data = vs, dynamic_n = int (length xs) + 1\<rparr>"
proof -
  have n0: "dynamic_n (dynamic_init xs) = int 0" by (simp add: dynamic_init_def)
  have l0: "0 + length vs \<le> length (dynamic_data (dynamic_init xs))"
    using assms by (simp add: dynamic_init_def)
  have r: "dynamic_run c (dynamic_init xs) (map D_append vs)
           = Done \<lparr>dynamic_data = vs, dynamic_n = int (length xs)\<rparr>"
    using run_appends[OF n0 l0, of c] assms by (simp add: dynamic_init_def)
  have g: "dynamic_get_n \<lparr>dynamic_data = vs, dynamic_n = int (length xs)\<rparr>
           = dynamic_max_n \<lparr>dynamic_data = vs, dynamic_n = int (length xs)\<rparr>"
    using assms by (simp add: dynamic_get_n_def dynamic_max_n_def)
  have p: "dynamic_append \<lparr>dynamic_data = vs, dynamic_n = int (length xs)\<rparr> t
           = StorePastEnd (int (length xs))
               \<lparr>dynamic_data = vs, dynamic_n = int (length xs) + 1\<rparr>"
    using append_past_end[of "\<lparr>dynamic_data = vs, dynamic_n = int (length xs)\<rparr>"
        "length xs" t] assms
    by simp
  from r g p show ?thesis by simp
qed

theorem dynamic_append_full_then_past_end_witness:
  "length [7, 8 :: int] = length [0, 0 :: int]
   \<and> dynamic_run Device (dynamic_init [0, 0]) [D_append 7, D_append (8 :: int)]
       = Done \<lparr>dynamic_data = [7, 8], dynamic_n = 2\<rparr>
   \<and> dynamic_append \<lparr>dynamic_data = [7, 8], dynamic_n = 2\<rparr> (9 :: int)
       = StorePastEnd 2 \<lparr>dynamic_data = [7, 8], dynamic_n = 3\<rparr>"
  using dynamic_append_full_then_past_end[of "[7, 8 :: int]" "[0, 0 :: int]" Device 9]
  by simp

text \<open>
  C3, as the claim states it, fails in its first half: \<open>dynamic\<close> declares \<open>append\<close>,
  \<open>indirect\<close> declares \<open>get_n\<close>, \<open>look_up\<close> and \<open>clear\<close> only.
\<close>

theorem indirect_has_no_append:
  "M_append \<in> set (members Dynamic) \<and> M_append \<notin> set (members Indirect)"
  by simp

text \<open>
  C3, amended: the Dynamic variant (not the Indirect one, which has no \<open>append\<close>) exposes
  \<open>append(value)\<close>, which takes the next slot index from a fetch-and-increment of the
  counter and writes the value into that slot; for every \<open>M \<le> max_n\<close>, \<open>M\<close> appends on a
  fresh node obtain the indices \<open>0, 1, ..., M - 1\<close> in this order (so no two the same),
  write the \<open>M\<close> values into these slots, leave the other slots as they were, and
  leave \<open>get_n() == M\<close>.
\<close>

theorem dynamic_appends_reserve_prefix:
  assumes "length vs \<le> length xs"
  shows "dynamic_run c (dynamic_init xs) (map D_append vs)
           = Done \<lparr>dynamic_data = vs @ drop (length vs) xs, dynamic_n = int (length vs)\<rparr>
       \<and> dynamic_reserved (dynamic_init xs) vs = map int [0 ..< length vs]
       \<and> distinct (dynamic_reserved (dynamic_init xs) vs)
       \<and> dynamic_get_n (final (dynamic_run c (dynamic_init xs) (map D_append vs)))
           = int (length vs)"
proof -
  have n0: "dynamic_n (dynamic_init xs) = int 0" by (simp add: dynamic_init_def)
  have l0: "0 + length vs \<le> length (dynamic_data (dynamic_init xs))"
    using assms by (simp add: dynamic_init_def)
  have r: "dynamic_run c (dynamic_init xs) (map D_append vs)
           = Done \<lparr>dynamic_data = vs @ drop (length vs) xs, dynamic_n = int (length vs)\<rparr>"
    using run_appends[OF n0 l0, of c] by (simp add: dynamic_init_def)
  have q: "dynamic_reserved (dynamic_init xs) vs = map int [0 ..< length vs]"
    using reserved_appends[OF n0 l0] by simp
  have d: "distinct (map int [0 ..< length vs])"
    by (simp add: distinct_map)
  from r q d show ?thesis by (simp add: dynamic_get_n_def)
qed

theorem dynamic_appends_reserve_prefix_witness:
  "length [7, 8 :: int] \<le> length [0, 0, 0 :: int]
   \<and> dynamic_run Device (dynamic_init [0, 0, 0]) [D_append 7, D_append (8 :: int)]
       = Done \<lparr>dynamic_data = [7, 8, 0], dynamic_n = 2\<rparr>
   \<and> dynamic_reserved (dynamic_init [0, 0, 0 :: int]) [7, 8] = [0, 1]"
  using dynamic_appends_reserve_prefix[of "[7, 8 :: int]" "[0, 0, 0 :: int]" Device]
  by (simp add: upt_rec)

subsection \<open>\<open>clear\<close> and the host \<open>look_up\<close>\<close>

text \<open>
  C9: \<open>clear()\<close> on a Dynamic or Indirect node makes \<open>get_n()\<close> return 0 and leaves the
  data array as it was.
\<close>

theorem clear_resets_counter_only:
  "dynamic_get_n (dynamic_clear s) = 0
   \<and> dynamic_data (dynamic_clear s) = dynamic_data s
   \<and> indirect_get_n (indirect_clear r) = 0
   \<and> indirect_data (indirect_clear r) = indirect_data r"
  by (simp add: dynamic_get_n_def dynamic_clear_def indirect_get_n_def indirect_clear_def)

text \<open>
  C10, as the claim states it, fails at one index. The sum \<open>i + 1\<close> is a 32-bit sum:
  for \<open>i = 2147483647\<close> it is \<open>-2147483648\<close>, so the host \<open>look_up\<close> leaves the counter of
  a fresh node at 0, which is not at least \<open>i + 1\<close>.
\<close>

theorem host_look_up_at_int_max:
  "dynamic_get_n (snd (dynamic_look_up Host (dynamic_init [0 :: int]) 2147483647)) = 0
   \<and> \<not> sint (2147483647 :: int32) + 1
         \<le> dynamic_get_n (snd (dynamic_look_up Host (dynamic_init [0 :: int]) 2147483647))
   \<and> indirect_get_n (snd (indirect_look_up Host (indirect_init [0]) 2147483647)) = 0
   \<and> \<not> sint (2147483647 :: int32) + 1
         \<le> indirect_get_n (snd (indirect_look_up Host (indirect_init [0]) 2147483647))"
  by (simp add: dynamic_get_n_def dynamic_look_up_def dynamic_init_def indirect_get_n_def
      indirect_look_up_def indirect_init_def)

text \<open>
  C10, amended: on the host, \<open>look_up(i)\<close> on a Dynamic or Indirect node sets the counter
  to the maximum of its previous value and the 32-bit sum \<open>i + 1\<close>. For every \<open>i\<close> below
  \<open>2147483647\<close> this is the maximum of the previous value and \<open>i + 1\<close>, and \<open>get_n()\<close> is
  at least \<open>i + 1\<close> afterwards; for every \<open>i\<close>, \<open>get_n()\<close> is not less than before.
\<close>

theorem host_look_up_raises_counter:
  "dynamic_get_n (snd (dynamic_look_up Host s i)) = max (dynamic_get_n s) (sint (i + 1))
   \<and> (sint i < 2147483647 \<longrightarrow>
        dynamic_get_n (snd (dynamic_look_up Host s i)) = max (dynamic_get_n s) (sint i + 1)
        \<and> sint i + 1 \<le> dynamic_get_n (snd (dynamic_look_up Host s i)))
   \<and> dynamic_get_n s \<le> dynamic_get_n (snd (dynamic_look_up Host s i))
   \<and> indirect_get_n (snd (indirect_look_up Host r i)) = max (indirect_get_n r) (sint (i + 1))
   \<and> (sint i < 2147483647 \<longrightarrow>
        indirect_get_n (snd (indirect_look_up Host r i)) = max (indirect_get_n r) (sint i + 1)
        \<and> sint i + 1 \<le> indirect_get_n (snd (indirect_look_up Host r i)))
   \<and> indirect_get_n r \<le> indirect_get_n (snd (indirect_look_up Host r i))"
proof -
  have d: "dynamic_get_n (snd (dynamic_look_up Host s i))
             = max (dynamic_get_n s) (sint (i + 1))"
    by (simp add: dynamic_get_n_def dynamic_look_up_def)
  have t: "indirect_get_n (snd (indirect_look_up Host r i))
             = max (indirect_get_n r) (sint (i + 1))"
    by (simp add: indirect_get_n_def indirect_look_up_def)
  have e: "sint i < 2147483647 \<longrightarrow> sint (i + 1) = sint i + 1"
    by (simp add: sint_succ_eq)
  from d t e show ?thesis by auto
qed

theorem host_look_up_raises_counter_witness:
  "sint (4 :: int32) < 2147483647
   \<and> dynamic_get_n (snd (dynamic_look_up Host (dynamic_init [0, 0, 0, 0, 0 :: int]) 4)) = 5
   \<and> sint (2 :: int32) < 2147483647
   \<and> indirect_get_n (snd (indirect_look_up Host
         \<lparr>indirect_data = [0, 0, 0, 0, 0, 0, 0, 0], indirect_n = 7\<rparr> 2)) = 7"
  using host_look_up_raises_counter
          [of "dynamic_init [0, 0, 0, 0, 0 :: int]" 4
              "\<lparr>indirect_data = [0, 0, 0, 0, 0, 0, 0, 0], indirect_n = 7\<rparr>"]
        host_look_up_raises_counter
          [of "dynamic_init [0, 0, 0, 0, 0 :: int]" 2
              "\<lparr>indirect_data = [0, 0, 0, 0, 0, 0, 0, 0], indirect_n = 7\<rparr>"]
  by (simp add: dynamic_get_n_def dynamic_init_def indirect_get_n_def)

section \<open>Properties of \<open>hashed\<close> and \<open>pointer\<close>\<close>

subsection \<open>One call\<close>

lemma umap_find_append:
  "umap_find (m @ [(k, v)]) j =
     (if umap_find m j = None \<and> j = k then Some v else umap_find m j)"
  by (cases "map_of m j") (simp_all add: umap_find_def map_add_def)

lemma umap_index_present:
  "umap_find m k = Some p \<Longrightarrow> umap_index m k = (p, m)"
  by (simp add: umap_index_def)

lemma umap_find_hashed_keys:
  "umap_find (hashed_data s) i = None \<longleftrightarrow> i \<notin> set (hashed_keys s)"
  by (simp add: umap_find_def hashed_keys_def map_of_eq_None_iff)

lemma hashed_activate_absent:
  "umap_find (hashed_data s) i = None \<Longrightarrow>
     hashed_activate s i a = (s\<lparr>hashed_data := hashed_data s @ [(i, Heap a)]\<rparr>, Suc a)"
  by (simp add: hashed_activate_def allocate_def alloc_def umap_insert_def)

lemma hashed_activate_present:
  "umap_find (hashed_data s) i = Some p \<Longrightarrow> hashed_activate s i a = (s, a)"
  by (simp add: hashed_activate_def)

lemma hashed_activate_records:
  "umap_find (hashed_data (fst (hashed_activate s i a))) i \<noteq> None"
  by (cases "umap_find (hashed_data s) i")
     (simp_all add: hashed_activate_absent hashed_activate_present umap_find_append)

lemma hashed_activate_effect:
  "hashed_activate s i a =
     (if i \<in> set (hashed_keys s) then (s, a)
      else (s\<lparr>hashed_data := hashed_data s @ [(i, Heap a)]\<rparr>, Suc a))"
proof (cases "umap_find (hashed_data s) i")
  case None
  then show ?thesis
    using umap_find_hashed_keys[of s i] by (simp add: hashed_activate_absent)
next
  case (Some p)
  then show ?thesis
    using umap_find_hashed_keys[of s i] by (simp add: hashed_activate_present)
qed

lemma hashed_look_up_device:
  "hashed_look_up Device s i a =
     (case umap_find (hashed_data s) i of None \<Rightarrow> Null | Some p \<Rightarrow> p, s, a)"
  by (cases "umap_find (hashed_data s) i")
     (simp_all add: hashed_look_up_def umap_index_present)

lemma hashed_look_up_host:
  "hashed_look_up Host s i a =
     (the (umap_find (hashed_data (fst (hashed_activate s i a))) i),
      fst (hashed_activate s i a), snd (hashed_activate s i a))"
proof -
  obtain s1 a1 where act: "hashed_activate s i a = (s1, a1)"
    by (cases "hashed_activate s i a")
  from hashed_activate_records[of s i a] act
  obtain p where p: "umap_find (hashed_data s1) i = Some p"
    by auto
  show ?thesis
    by (simp add: hashed_look_up_def act p umap_index_present)
qed

lemma hashed_look_up_present:
  "umap_find (hashed_data s) i = Some p \<Longrightarrow> hashed_look_up c s i a = (p, s, a)"
  by (cases c)
     (simp_all add: hashed_look_up_host hashed_look_up_device hashed_activate_present)

lemma hashed_look_up_host_records:
  "umap_find (hashed_data (fst (snd (hashed_look_up Host s i a)))) i
     = Some (fst (hashed_look_up Host s i a))"
  using hashed_activate_records[of s i a] by (auto simp: hashed_look_up_host)

lemma pointer_activate_null:
  "pointer_data p = Null \<Longrightarrow> pointer_activate p i a = (p\<lparr>pointer_data := Heap a\<rparr>, Suc a)"
  by (simp add: pointer_activate_def allocate_def alloc_def)

lemma pointer_activate_set:
  "pointer_data p \<noteq> Null \<Longrightarrow> pointer_activate p i a = (p, a)"
  by (simp add: pointer_activate_def)

lemma pointer_activate_sets:
  "pointer_data (fst (pointer_activate p i a)) \<noteq> Null"
  by (cases "pointer_data p = Null")
     (simp_all add: pointer_activate_null pointer_activate_set)

lemma pointer_look_up_set:
  "pointer_data p \<noteq> Null \<Longrightarrow> pointer_look_up c p i a = (pointer_data p, p, a)"
  by (cases c) (simp_all add: pointer_look_up_def pointer_activate_set)

subsection \<open>One step of a sequence\<close>

lemma hashed_exec_effect:
  "hashed_exec c (s, a) x =
     (if set (activates c x) \<subseteq> set (hashed_keys s) then (s, a)
      else (s\<lparr>hashed_data := hashed_data s @ [(hd (activates c x), Heap a)]\<rparr>, Suc a))"
proof (cases x)
  case (N_look_up i)
  then show ?thesis
    by (cases c)
       (simp_all add: hashed_look_up_host hashed_look_up_device hashed_activate_effect)
next
  case (N_activate i)
  then show ?thesis by (simp add: hashed_activate_effect)
qed

lemma heap_below_mono: "heap_below a r \<Longrightarrow> a \<le> b \<Longrightarrow> heap_below b r"
  by (cases r) simp_all

lemma hashed_exec_keys:
  "set (hashed_keys (fst (hashed_exec c (s, a) x)))
     = set (hashed_keys s) \<union> set (activates c x)"
  by (cases x; cases c) (auto simp: hashed_exec_effect hashed_keys_def)

lemma hashed_exec_inv:
  assumes "hashed_inv s a"
  shows "hashed_inv (fst (hashed_exec c (s, a) x)) (snd (hashed_exec c (s, a) x))"
proof (cases "set (activates c x) \<subseteq> set (hashed_keys s)")
  case True
  then show ?thesis using assms by (simp add: hashed_exec_effect)
next
  case False
  then have h: "hd (activates c x) \<notin> set (hashed_keys s)"
    by (cases x; cases c) simp_all
  have "list_all (\<lambda>kv. heap_below (Suc a) (snd kv)) (hashed_data s)"
    using assms heap_below_mono[of a _ "Suc a"] by (auto simp: hashed_inv_def list_all_iff)
  with False h assms show ?thesis
    by (simp add: hashed_exec_effect hashed_inv_def hashed_keys_def)
qed

lemma hashed_exec_count:
  assumes "hashed_exec c (s, a) x = (s', a')"
  shows "length (hashed_data s') + a = length (hashed_data s) + a'"
  using assms by (auto simp: hashed_exec_effect split: if_splits)

lemma hashed_exec_keeps:
  assumes "umap_find (hashed_data s) i = Some r"
  shows "umap_find (hashed_data (fst (hashed_exec c (s, a) x))) i = Some r"
  using assms by (simp add: hashed_exec_effect umap_find_append)

lemma pointer_exec_effect:
  "pointer_exec c (p, a) x =
     (if pointer_data p \<noteq> Null \<or> activates c x = [] then (p, a)
      else (p\<lparr>pointer_data := Heap a\<rparr>, Suc a))"
  by (cases x; cases c; cases "pointer_data p = Null")
     (simp_all add: pointer_look_up_def pointer_activate_null pointer_activate_set)

subsection \<open>Whole sequences\<close>

lemma hashed_run_Cons:
  "hashed_run c (s, a) (x # xs) = hashed_run c (hashed_exec c (s, a) x) xs"
  by (simp add: hashed_run_def)

lemma hashed_run_snoc_look_up:
  "hashed_run c sa (ops @ [N_look_up i])
     = snd (hashed_look_up c (fst (hashed_run c sa ops)) i (snd (hashed_run c sa ops)))"
  by (cases "hashed_run c sa ops") (simp add: hashed_run_def)

lemma hashed_run_keys:
  "set (hashed_keys (fst (hashed_run c (s, a) ops)))
     = set (hashed_keys s) \<union> set (activated c ops)"
proof (induction ops arbitrary: s a)
  case Nil
  then show ?case by (simp add: hashed_run_def activated_def)
next
  case (Cons x xs)
  obtain s1 a1 where e: "hashed_exec c (s, a) x = (s1, a1)"
    by (cases "hashed_exec c (s, a) x")
  have "set (hashed_keys s1) = set (hashed_keys s) \<union> set (activates c x)"
    using hashed_exec_keys[of c s a x] e by simp
  then show ?case
    using Cons.IH[of s1 a1] by (auto simp: hashed_run_Cons e activated_def)
qed

lemma hashed_run_inv:
  assumes "hashed_inv s a"
  shows "hashed_inv (fst (hashed_run c (s, a) ops)) (snd (hashed_run c (s, a) ops))"
  using assms
proof (induction ops arbitrary: s a)
  case Nil
  then show ?case by (simp add: hashed_run_def)
next
  case (Cons x xs)
  obtain s1 a1 where e: "hashed_exec c (s, a) x = (s1, a1)"
    by (cases "hashed_exec c (s, a) x")
  have "hashed_inv s1 a1" using hashed_exec_inv[OF Cons.prems, of c x] e by simp
  from Cons.IH[OF this] show ?case by (simp add: hashed_run_Cons e)
qed

lemma hashed_run_count:
  assumes "hashed_run c (s, a) ops = (s', a')"
  shows "length (hashed_data s') + a = length (hashed_data s) + a'"
  using assms
proof (induction ops arbitrary: s a)
  case Nil
  then show ?case by (simp add: hashed_run_def)
next
  case (Cons x xs)
  obtain s1 a1 where e: "hashed_exec c (s, a) x = (s1, a1)"
    by (cases "hashed_exec c (s, a) x")
  from Cons.prems have "hashed_run c (s1, a1) xs = (s', a')"
    by (simp add: hashed_run_Cons e)
  from Cons.IH[OF this] hashed_exec_count[OF e] show ?case by simp
qed

lemma hashed_run_keeps:
  assumes "umap_find (hashed_data s) i = Some r"
  shows "umap_find (hashed_data (fst (hashed_run c (s, a) ops))) i = Some r"
  using assms
proof (induction ops arbitrary: s a)
  case Nil
  then show ?case by (simp add: hashed_run_def)
next
  case (Cons x xs)
  obtain s1 a1 where e: "hashed_exec c (s, a) x = (s1, a1)"
    by (cases "hashed_exec c (s, a) x")
  have "umap_find (hashed_data s1) i = Some r"
    using hashed_exec_keeps[OF Cons.prems, of c a x] e by simp
  from Cons.IH[OF this] show ?case by (simp add: hashed_run_Cons e)
qed

lemma hashed_init_inv: "hashed_inv hashed_init a"
  by (simp add: hashed_inv_def hashed_init_def hashed_keys_def)

lemma hashed_inv_value:
  assumes "hashed_inv s a" and "umap_find (hashed_data s) i = Some r"
  shows "heap_below a r"
proof -
  from assms(2) have "(i, r) \<in> set (hashed_data s)"
    by (simp add: umap_find_def map_of_SomeD)
  with assms(1) show ?thesis by (auto simp: hashed_inv_def list_all_iff)
qed

lemma hashed_run_size:
  "umap_size (hashed_data (fst (hashed_run c (hashed_init, a) ops)))
     = card (set (activated c ops))"
proof -
  let ?s = "fst (hashed_run c (hashed_init, a) ops)"
  have d: "distinct (hashed_keys ?s)"
    using hashed_run_inv[OF hashed_init_inv, of c a ops] by (simp add: hashed_inv_def)
  have k: "set (hashed_keys ?s) = set (activated c ops)"
    using hashed_run_keys[of c hashed_init a ops]
    by (simp add: hashed_init_def hashed_keys_def)
  have "umap_size (hashed_data ?s) = length (hashed_keys ?s)"
    by (simp add: umap_size_def hashed_keys_def)
  also have "\<dots> = card (set (hashed_keys ?s))"
    using d by (simp add: distinct_card)
  finally show ?thesis using k by simp
qed

lemma hashed_run_allocations:
  "snd (hashed_run c (hashed_init, a) ops) = a + card (set (activated c ops))"
proof -
  obtain s' a' where r: "hashed_run c (hashed_init, a) ops = (s', a')"
    by (cases "hashed_run c (hashed_init, a) ops")
  have "length (hashed_data s') = card (set (activated c ops))"
    using hashed_run_size[of c a ops] r by (simp add: umap_size_def)
  with hashed_run_count[OF r] have "a' = a + card (set (activated c ops))"
    by (simp add: hashed_init_def)
  then show ?thesis by (simp add: r)
qed

lemma hashed_look_up_host_heap:
  "heap_below
     (snd (snd (hashed_look_up Host (fst (hashed_run Host (hashed_init, b) ops)) i
                  (snd (hashed_run Host (hashed_init, b) ops)))))
     (fst (hashed_look_up Host (fst (hashed_run Host (hashed_init, b) ops)) i
             (snd (hashed_run Host (hashed_init, b) ops))))"
proof -
  let ?R = "hashed_run Host (hashed_init, b) ops"
  let ?L = "hashed_look_up Host (fst ?R) i (snd ?R)"
  have "hashed_inv (fst (snd ?L)) (snd (snd ?L))"
    using hashed_run_inv[OF hashed_init_inv, of Host b "ops @ [N_look_up i]"]
    by (simp only: hashed_run_snoc_look_up)
  then show ?thesis
    by (rule hashed_inv_value) (rule hashed_look_up_host_records)
qed

lemma pointer_run_Cons:
  "pointer_run c (p, a) (x # xs) = pointer_run c (pointer_exec c (p, a) x) xs"
  by (simp add: pointer_run_def)

lemma pointer_run_set:
  "pointer_data p \<noteq> Null \<Longrightarrow> pointer_run c (p, a) ops = (p, a)"
  by (induction ops) (simp_all add: pointer_run_def pointer_exec_effect)

lemma pointer_run_effect:
  "pointer_run c (p, a) ops =
     (if pointer_data p \<noteq> Null \<or> activated c ops = [] then (p, a)
      else (p\<lparr>pointer_data := Heap a\<rparr>, Suc a))"
proof (induction ops arbitrary: p a)
  case Nil
  then show ?case by (simp add: pointer_run_def activated_def)
next
  case (Cons x xs)
  show ?case
  proof (cases "pointer_data p \<noteq> Null \<or> activates c x = []")
    case True
    then have "pointer_exec c (p, a) x = (p, a)" by (simp add: pointer_exec_effect)
    with True Cons.IH[of p a] show ?thesis
      by (auto simp: pointer_run_Cons activated_def)
  next
    case False
    then have e: "pointer_exec c (p, a) x = (p\<lparr>pointer_data := Heap a\<rparr>, Suc a)"
      by (simp add: pointer_exec_effect)
    have "pointer_run c (p\<lparr>pointer_data := Heap a\<rparr>, Suc a) xs
            = (p\<lparr>pointer_data := Heap a\<rparr>, Suc a)"
      by (rule pointer_run_set) simp
    with False e show ?thesis by (simp add: pointer_run_Cons activated_def)
  qed
qed

lemma activated_device: "set (activated Device ops) = {i. N_activate i \<in> set ops}"
proof (induction ops)
  case Nil
  then show ?case by (simp add: activated_def)
next
  case (Cons x xs)
  then show ?case by (cases x) (auto simp: activated_def)
qed

subsection \<open>\<open>look_up\<close> on the device and on the host\<close>

text \<open>
  C4: on a device context (\<open>TLANG_HOST\<close> not defined), \<open>look_up(i)\<close> on a Hashed node
  that has seen no \<open>activate(i)\<close>, and on a Pointer node that has seen no \<open>activate\<close>
  (its one slot is activated whatever the index), returns \<open>nullptr\<close>; and a device
  \<open>look_up\<close> on any node returns the node and the allocator as it found them. The
  nodes start as constructed and may have seen any other calls.
\<close>

theorem device_look_up_before_activate_is_null:
  "(N_activate i \<notin> set ops \<longrightarrow>
      hashed_look_up Device (fst (hashed_run Device (hashed_init, a) ops)) i
          (snd (hashed_run Device (hashed_init, a) ops))
        = (Null, hashed_run Device (hashed_init, a) ops))
   \<and> ((\<forall>j. N_activate j \<notin> set ops) \<longrightarrow>
      pointer_look_up Device (fst (pointer_run Device (pointer_init, a) ops)) i
          (snd (pointer_run Device (pointer_init, a) ops))
        = (Null, pointer_run Device (pointer_init, a) ops))
   \<and> snd (hashed_look_up Device s i b) = (s, b)
   \<and> snd (pointer_look_up Device p i b) = (p, b)"
proof -
  have h: "hashed_look_up Device (fst (hashed_run Device (hashed_init, a) ops)) i
          (snd (hashed_run Device (hashed_init, a) ops))
        = (Null, hashed_run Device (hashed_init, a) ops)" if "N_activate i \<notin> set ops"
  proof -
    let ?s = "fst (hashed_run Device (hashed_init, a) ops)"
    have "set (hashed_keys ?s) = {j. N_activate j \<in> set ops}"
      using hashed_run_keys[of Device hashed_init a ops]
      by (simp add: activated_device hashed_init_def hashed_keys_def)
    with that have "i \<notin> set (hashed_keys ?s)" by simp
    then have "umap_find (hashed_data ?s) i = None" by (simp add: umap_find_hashed_keys)
    then show ?thesis by (simp add: hashed_look_up_device)
  qed
  have q: "pointer_look_up Device (fst (pointer_run Device (pointer_init, a) ops)) i
          (snd (pointer_run Device (pointer_init, a) ops))
        = (Null, pointer_run Device (pointer_init, a) ops)"
    if "\<forall>j. N_activate j \<notin> set ops"
  proof -
    from that have "set (activated Device ops) = {}" by (simp add: activated_device)
    then have "activated Device ops = []" by simp
    then have "pointer_run Device (pointer_init, a) ops = (pointer_init, a)"
      by (simp add: pointer_run_effect)
    then show ?thesis by (simp add: pointer_look_up_def pointer_init_def)
  qed
  from h q show ?thesis
    by (simp add: hashed_look_up_device pointer_look_up_def)
qed

theorem device_look_up_before_activate_is_null_witness:
  "N_activate 5 \<notin> set [N_activate 3, N_look_up 5, N_look_up 3]
   \<and> hashed_run Device (hashed_init, 0) [N_activate 3, N_look_up 5, N_look_up 3]
       = (\<lparr>hashed_data = [(3, Heap 0)]\<rparr>, 1)
   \<and> hashed_look_up Device \<lparr>hashed_data = [(3, Heap 0)]\<rparr> 5 1
       = (Null, \<lparr>hashed_data = [(3, Heap 0)]\<rparr>, 1)
   \<and> (\<forall>j. N_activate j \<notin> set [N_look_up 0, N_look_up 0])
   \<and> pointer_run Device (pointer_init, 0) [N_look_up 0, N_look_up 0] = (pointer_init, 0)
   \<and> pointer_look_up Device pointer_init 0 0 = (Null, pointer_init, 0)"
proof -
  have r: "hashed_run Device (hashed_init, 0) [N_activate 3, N_look_up 5, N_look_up 3]
       = (\<lparr>hashed_data = [(3, Heap 0)]\<rparr>, 1)"
    by (simp add: hashed_run_def hashed_init_def hashed_activate_def hashed_look_up_def
        umap_find_def umap_insert_def umap_index_def allocate_def alloc_def)
  have q: "pointer_run Device (pointer_init, 0) [N_look_up 0, N_look_up 0]
             = (pointer_init, 0)"
    by (simp add: pointer_run_def pointer_look_up_def)
  from device_look_up_before_activate_is_null
         [of 5 "[N_activate 3, N_look_up 5, N_look_up 3]" 0 hashed_init 0 pointer_init]
       device_look_up_before_activate_is_null
         [of 0 "[N_look_up 0, N_look_up 0]" 0 hashed_init 0 pointer_init] r q
  show ?thesis by simp
qed

text \<open>
  C5: on a host context (\<open>TLANG_HOST\<close> defined), \<open>look_up(i)\<close> on a Hashed or Pointer node
  leaves the node and the allocator exactly as \<open>activate(i)\<close> leaves them, the slot of
  \<open>i\<close> is recorded in the node afterwards, and the reference returned is the one
  recorded there; it is not null for a Pointer node, and for a Hashed node that started
  as constructed it is a block the allocator has handed out.
\<close>

theorem host_look_up_activates:
  "snd (hashed_look_up Host s i a) = hashed_activate s i a
   \<and> umap_find (hashed_data (fst (snd (hashed_look_up Host s i a)))) i
       = Some (fst (hashed_look_up Host s i a))
   \<and> snd (pointer_look_up Host p i a) = pointer_activate p i a
   \<and> pointer_data (fst (snd (pointer_look_up Host p i a))) = fst (pointer_look_up Host p i a)
   \<and> fst (pointer_look_up Host p i a) \<noteq> Null
   \<and> heap_below
       (snd (snd (hashed_look_up Host (fst (hashed_run Host (hashed_init, b) ops)) i
                    (snd (hashed_run Host (hashed_init, b) ops)))))
       (fst (hashed_look_up Host (fst (hashed_run Host (hashed_init, b) ops)) i
               (snd (hashed_run Host (hashed_init, b) ops))))"
proof -
  have 1: "snd (hashed_look_up Host s i a) = hashed_activate s i a"
    by (simp add: hashed_look_up_host)
  have 3: "snd (pointer_look_up Host p i a) = pointer_activate p i a"
    by (cases "pointer_activate p i a") (simp add: pointer_look_up_def)
  have 4: "pointer_data (fst (snd (pointer_look_up Host p i a)))
             = fst (pointer_look_up Host p i a)"
    by (cases "pointer_activate p i a") (simp add: pointer_look_up_def)
  have 5: "fst (pointer_look_up Host p i a) \<noteq> Null"
    using pointer_activate_sets[of p i a]
    by (cases "pointer_activate p i a") (simp add: pointer_look_up_def)
  from 1 3 4 5 hashed_look_up_host_records[of s i a] hashed_look_up_host_heap[of b ops i]
  show ?thesis by simp
qed

theorem host_look_up_activates_witness:
  "hashed_look_up Host \<lparr>hashed_data = [(3, Heap 0)]\<rparr> 5 1
     = (Heap 1, \<lparr>hashed_data = [(3, Heap 0), (5, Heap 1)]\<rparr>, 2)
   \<and> hashed_activate \<lparr>hashed_data = [(3, Heap 0)]\<rparr> 5 1
     = (\<lparr>hashed_data = [(3, Heap 0), (5, Heap 1)]\<rparr>, 2)
   \<and> pointer_look_up Host pointer_init 0 2 = (Heap 2, \<lparr>pointer_data = Heap 2\<rparr>, 3)
   \<and> pointer_activate pointer_init 0 2 = (\<lparr>pointer_data = Heap 2\<rparr>, 3)"
  using host_look_up_activates
          [of "\<lparr>hashed_data = [(3, Heap 0)]\<rparr>" 5 1 pointer_init 0 "[]"]
        host_look_up_activates
          [of "\<lparr>hashed_data = [(3, Heap 0)]\<rparr>" 0 2 pointer_init 0 "[]"]
  by (simp add: hashed_look_up_def hashed_activate_def pointer_look_up_def
      pointer_activate_def pointer_init_def umap_find_def umap_insert_def umap_index_def
      allocate_def alloc_def)

subsection \<open>Activation is idempotent\<close>

lemma hashed_twice_same:
  "\<exists>p. hashed_twice c s i a = (p, p)
       \<and> umap_find (hashed_data (fst (hashed_activate s i a))) i = Some p"
proof -
  obtain s0 a0 where act: "hashed_activate s i a = (s0, a0)"
    by (cases "hashed_activate s i a")
  from hashed_activate_records[of s i a] act
  obtain p where p: "umap_find (hashed_data s0) i = Some p"
    by auto
  have "hashed_twice c s i a = (p, p)"
    by (simp add: hashed_twice_def act hashed_look_up_present[OF p])
  with p act show ?thesis by simp
qed

lemma pointer_twice_same:
  "pointer_twice c p i a =
     (pointer_data (fst (pointer_activate p i a)),
      pointer_data (fst (pointer_activate p i a)))"
proof -
  obtain s0 a0 where act: "pointer_activate p i a = (s0, a0)"
    by (cases "pointer_activate p i a")
  from pointer_activate_sets[of p i a] act have n: "pointer_data s0 \<noteq> Null" by simp
  show ?thesis
    by (simp add: pointer_twice_def act pointer_look_up_set[OF n])
qed

lemma hashed_activate_twice:
  "hashed_activate (fst (hashed_activate s i a)) i (snd (hashed_activate s i a))
     = hashed_activate s i a"
proof -
  obtain s0 a0 where act: "hashed_activate s i a = (s0, a0)"
    by (cases "hashed_activate s i a")
  from hashed_activate_records[of s i a] act
  obtain p where "umap_find (hashed_data s0) i = Some p"
    by auto
  then show ?thesis by (simp add: act hashed_activate_present)
qed

lemma pointer_activate_twice:
  "pointer_activate (fst (pointer_activate p i a)) i (snd (pointer_activate p i a))
     = pointer_activate p i a"
proof -
  obtain s0 a0 where act: "pointer_activate p i a = (s0, a0)"
    by (cases "pointer_activate p i a")
  from pointer_activate_sets[of p i a] act have "pointer_data s0 \<noteq> Null" by simp
  then show ?thesis by (simp add: act pointer_activate_set)
qed

lemma hashed_twice_absent:
  assumes "umap_find (hashed_data s) i = None"
  shows "hashed_twice c s i a = (Heap a, Heap a)"
proof -
  have "umap_find (hashed_data (s\<lparr>hashed_data := hashed_data s @ [(i, Heap a)]\<rparr>)) i
          = Some (Heap a)"
    using assms by (simp add: umap_find_append)
  then show ?thesis
    by (simp add: hashed_twice_def hashed_activate_absent[OF assms] hashed_look_up_present)
qed

lemma hashed_look_up_later:
  assumes "umap_find (hashed_data s) i = Some q"
  shows "fst (hashed_look_up c (fst (hashed_run c (s, a) ops)) i
               (snd (hashed_run c (s, a) ops))) = q"
  using hashed_run_keeps[OF assms, of c a ops] by (simp add: hashed_look_up_present)

lemma pointer_look_up_later:
  assumes "pointer_data p \<noteq> Null"
  shows "fst (pointer_look_up c (fst (pointer_run c (p, a) ops)) i
               (snd (pointer_run c (p, a) ops))) = pointer_data p"
  using assms by (simp add: pointer_run_set pointer_look_up_set)

text \<open>
  C6, as the claim states it, fails for one bounded variant: \<open>indirect\<close>, of capacity
  \<open>max_n\<close>, declares \<open>get_n\<close>, \<open>look_up\<close> and \<open>clear\<close> but no \<open>activate\<close>, so the sequence
  \<open>activate(i)\<close>, \<open>look_up(i)\<close>, \<open>look_up(i)\<close> does not exist for it. The other five
  structs declare it.
\<close>

theorem indirect_has_no_activate:
  "M_activate \<notin> set (members Indirect)
   \<and> M_activate \<in> set (members Root) \<and> M_activate \<in> set (members Dense)
   \<and> M_activate \<in> set (members Hashed) \<and> M_activate \<in> set (members Pointer)
   \<and> M_activate \<in> set (members Dynamic)"
  by simp

text \<open>
  C6, amended: for every bounded variant that declares \<open>activate\<close> (Root and Pointer of
  capacity 1, Dense of capacity \<open>n\<close>, Dynamic of capacity \<open>max_n\<close>; not Indirect) and every
  index \<open>i\<close> in \<open>[0, capacity)\<close>, and for Hashed at every index, on either context,
  \<open>activate(i)\<close> followed by \<open>look_up(i)\<close> twice returns the same child reference both
  times. For Root, Dense and Dynamic it is the address of the embedded child or of slot
  \<open>i\<close>. For Hashed and Pointer it is the pointer recorded in the node after the
  \<open>activate\<close> (the block just allocated when there was none; never null for Pointer); a
  second \<open>activate(i)\<close> changes nothing; and once a child is recorded, a \<open>look_up\<close> of the
  same index after any further calls returns that same reference.
\<close>

theorem activate_then_look_up_twice_same:
  "(0 \<le> i \<and> i < layout_root_get_n r \<longrightarrow> layout_root_twice r i = (Embedded, Embedded))
   \<and> (0 \<le> i \<and> i < dense_get_n d \<longrightarrow> dense_twice d i = (Slot i, Slot i))
   \<and> (0 \<le> sint j \<and> sint j < dynamic_max_n y \<longrightarrow>
        dynamic_twice c y j = (Slot (sint j), Slot (sint j)))
   \<and> fst (hashed_twice c h i a) = snd (hashed_twice c h i a)
   \<and> umap_find (hashed_data (fst (hashed_activate h i a))) i = Some (fst (hashed_twice c h i a))
   \<and> (umap_find (hashed_data h) i = None \<longrightarrow> hashed_twice c h i a = (Heap a, Heap a))
   \<and> hashed_activate (fst (hashed_activate h i a)) i (snd (hashed_activate h i a))
       = hashed_activate h i a
   \<and> (umap_find (hashed_data h) i = Some q \<longrightarrow>
        fst (hashed_look_up c (fst (hashed_run c (h, a) ops)) i
               (snd (hashed_run c (h, a) ops))) = q)
   \<and> (0 \<le> i \<and> i < pointer_get_n p \<longrightarrow>
        fst (pointer_twice c p i a) = snd (pointer_twice c p i a)
        \<and> fst (pointer_twice c p i a) = pointer_data (fst (pointer_activate p i a))
        \<and> fst (pointer_twice c p i a) \<noteq> Null
        \<and> (pointer_data p = Null \<longrightarrow> pointer_twice c p i a = (Heap a, Heap a))
        \<and> pointer_activate (fst (pointer_activate p i a)) i (snd (pointer_activate p i a))
            = pointer_activate p i a
        \<and> (pointer_data p \<noteq> Null \<longrightarrow>
             fst (pointer_look_up c (fst (pointer_run c (p, a) ops)) i
                    (snd (pointer_run c (p, a) ops))) = pointer_data p))"
proof -
  have 1: "layout_root_twice r i = (Embedded, Embedded)"
    by (simp add: layout_root_twice_def layout_root_look_up_def)
  have 2: "dense_twice d i = (Slot i, Slot i)"
    by (simp add: dense_twice_def dense_look_up_def)
  have 3: "dynamic_twice c y j = (Slot (sint j), Slot (sint j))"
    by (cases c) (simp_all add: dynamic_twice_def dynamic_look_up_def)
  have 4: "fst (hashed_twice c h i a) = snd (hashed_twice c h i a)"
    "umap_find (hashed_data (fst (hashed_activate h i a))) i = Some (fst (hashed_twice c h i a))"
    using hashed_twice_same[of c h i a] by auto
  have 5: "umap_find (hashed_data h) i = None \<longrightarrow> hashed_twice c h i a = (Heap a, Heap a)"
    by (simp add: hashed_twice_absent)
  have 6: "umap_find (hashed_data h) i = Some q \<longrightarrow>
        fst (hashed_look_up c (fst (hashed_run c (h, a) ops)) i
               (snd (hashed_run c (h, a) ops))) = q"
    by (simp add: hashed_look_up_later)
  have 7: "fst (pointer_twice c p i a) = snd (pointer_twice c p i a)"
    "fst (pointer_twice c p i a) = pointer_data (fst (pointer_activate p i a))"
    "fst (pointer_twice c p i a) \<noteq> Null"
    by (simp_all add: pointer_twice_same pointer_activate_sets)
  have 8: "pointer_data p = Null \<longrightarrow> pointer_twice c p i a = (Heap a, Heap a)"
    by (simp add: pointer_twice_same pointer_activate_null)
  have 9: "pointer_data p \<noteq> Null \<longrightarrow>
             fst (pointer_look_up c (fst (pointer_run c (p, a) ops)) i
                    (snd (pointer_run c (p, a) ops))) = pointer_data p"
    using pointer_look_up_later[of p c a ops i] by blast
  from 1 2 3 4 5 6 7 8 9 hashed_activate_twice[of h i a] pointer_activate_twice[of p i a]
  show ?thesis by simp
qed

theorem activate_then_look_up_twice_same_witness:
  "(0 :: int) \<le> 0 \<and> 0 < layout_root_get_n \<lparr>root_children = ()\<rparr>
   \<and> layout_root_twice \<lparr>root_children = ()\<rparr> 0 = (Embedded, Embedded)
   \<and> 0 < dense_get_n \<lparr>dense_children = [(), (), ()]\<rparr>
   \<and> dense_twice \<lparr>dense_children = [(), (), ()]\<rparr> 0 = (Slot 0, Slot 0)
   \<and> 0 \<le> sint (2 :: int32) \<and> sint (2 :: int32) < dynamic_max_n (dynamic_init [0, 0, 0 :: int])
   \<and> dynamic_twice Host (dynamic_init [0, 0, 0 :: int]) 2 = (Slot 2, Slot 2)
   \<and> umap_find (hashed_data hashed_init) 0 = None
   \<and> hashed_twice Host hashed_init 0 0 = (Heap 0, Heap 0)
   \<and> 0 < pointer_get_n pointer_init
   \<and> pointer_data pointer_init = Null
   \<and> pointer_twice Host pointer_init 0 0 = (Heap 0, Heap 0)
   \<and> umap_find (hashed_data \<lparr>hashed_data = [(0, Heap 0)]\<rparr>) 0 = Some (Heap 0)
   \<and> fst (hashed_look_up Device
            (fst (hashed_run Device (\<lparr>hashed_data = [(0, Heap 0)]\<rparr>, 1)
                    [N_activate 3, N_activate 0]))
            0 (snd (hashed_run Device (\<lparr>hashed_data = [(0, Heap 0)]\<rparr>, 1)
                    [N_activate 3, N_activate 0]))) = Heap 0
   \<and> pointer_data \<lparr>pointer_data = Heap 0\<rparr> \<noteq> Null
   \<and> fst (pointer_look_up Device
            (fst (pointer_run Device (\<lparr>pointer_data = Heap 0\<rparr>, 1)
                    [N_activate 3, N_activate 0]))
            0 (snd (pointer_run Device (\<lparr>pointer_data = Heap 0\<rparr>, 1)
                    [N_activate 3, N_activate 0]))) = Heap 0"
proof -
  have h: "(0 :: int) \<le> 0" "0 < layout_root_get_n \<lparr>root_children = ()\<rparr>"
    "0 < dense_get_n \<lparr>dense_children = [(), (), ()]\<rparr>"
    "0 \<le> sint (2 :: int32)" "sint (2 :: int32) < dynamic_max_n (dynamic_init [0, 0, 0 :: int])"
    "umap_find (hashed_data hashed_init) 0 = None"
    "0 < pointer_get_n pointer_init" "pointer_data pointer_init = Null"
    by (simp_all add: layout_root_get_n_def dense_get_n_def dynamic_max_n_def dynamic_init_def
        hashed_init_def umap_find_def pointer_get_n_def pointer_init_def)
  note t = activate_then_look_up_twice_same
          [of 0 "\<lparr>root_children = ()\<rparr>" "\<lparr>dense_children = [(), (), ()]\<rparr>" 2
              "dynamic_init [0, 0, 0 :: int]" Host hashed_init 0 "Heap 0" "[]" pointer_init]
  from t h have 1: "layout_root_twice \<lparr>root_children = ()\<rparr> 0 = (Embedded, Embedded)"
    by blast
  from t h have 2: "dense_twice \<lparr>dense_children = [(), (), ()]\<rparr> 0 = (Slot 0, Slot 0)"
    by blast
  from t h have 3: "dynamic_twice Host (dynamic_init [0, 0, 0 :: int]) 2 = (Slot (sint (2 :: int32)), Slot (sint (2 :: int32)))"
    by blast
  from t h have 4: "hashed_twice Host hashed_init 0 0 = (Heap 0, Heap 0)"
    by blast
  from t h have 5: "pointer_twice Host pointer_init 0 0 = (Heap 0, Heap 0)"
    by blast
  from 3 have 6: "dynamic_twice Host (dynamic_init [0, 0, 0 :: int]) 2 = (Slot 2, Slot 2)"
    by simp
  have g: "umap_find (hashed_data \<lparr>hashed_data = [(0, Heap 0)]\<rparr>) 0 = Some (Heap 0)"
    "pointer_data \<lparr>pointer_data = Heap 0\<rparr> \<noteq> Null"
    by (simp_all add: umap_find_def)
  note u = activate_then_look_up_twice_same
          [of 0 "\<lparr>root_children = ()\<rparr>" "\<lparr>dense_children = [(), (), ()]\<rparr>" 2
              "dynamic_init [0, 0, 0 :: int]" Device "\<lparr>hashed_data = [(0, Heap 0)]\<rparr>" 1
              "Heap 0" "[N_activate 3, N_activate 0]" "\<lparr>pointer_data = Heap 0\<rparr>"]
  from u g have 7: "fst (hashed_look_up Device
            (fst (hashed_run Device (\<lparr>hashed_data = [(0, Heap 0)]\<rparr>, 1)
                    [N_activate 3, N_activate 0]))
            0 (snd (hashed_run Device (\<lparr>hashed_data = [(0, Heap 0)]\<rparr>, 1)
                    [N_activate 3, N_activate 0]))) = Heap 0"
    by blast
  have "0 < pointer_get_n \<lparr>pointer_data = Heap 0\<rparr>" by (simp add: pointer_get_n_def)
  with u g have "fst (pointer_look_up Device
            (fst (pointer_run Device (\<lparr>pointer_data = Heap 0\<rparr>, 1)
                    [N_activate 3, N_activate 0]))
            0 (snd (pointer_run Device (\<lparr>pointer_data = Heap 0\<rparr>, 1)
                    [N_activate 3, N_activate 0]))) = pointer_data \<lparr>pointer_data = Heap 0\<rparr>"
    by blast
  then have 8: "fst (pointer_look_up Device
            (fst (pointer_run Device (\<lparr>pointer_data = Heap 0\<rparr>, 1)
                    [N_activate 3, N_activate 0]))
            0 (snd (pointer_run Device (\<lparr>pointer_data = Heap 0\<rparr>, 1)
                    [N_activate 3, N_activate 0]))) = Heap 0"
    by simp
  from h 1 2 6 4 5 g 7 8 show ?thesis by blast
qed

text \<open>
  C7: \<open>activate\<close> on a Hashed or Pointer node takes exactly one block from the allocator
  when the index (for Pointer, the one slot) has no child yet and installs it; when the
  child is there already it takes none and returns the node unchanged. After any
  \<open>activate(i)\<close> the child of \<open>i\<close> is there, so every later \<open>activate(i)\<close> is of the second
  kind; no later call replaces an installed child; and over a whole sequence on a fresh
  Hashed node the allocator is called once for each distinct index activated.
\<close>

theorem activate_allocates_once:
  "(umap_find (hashed_data s) i = None \<longrightarrow>
      hashed_activate s i a = (s\<lparr>hashed_data := hashed_data s @ [(i, Heap a)]\<rparr>, Suc a))
   \<and> (umap_find (hashed_data s) i \<noteq> None \<longrightarrow> hashed_activate s i a = (s, a))
   \<and> umap_find (hashed_data (fst (hashed_activate s i a))) i \<noteq> None
   \<and> (umap_find (hashed_data s) i = Some r \<longrightarrow>
        umap_find (hashed_data (fst (hashed_run c (s, a) ops))) i = Some r)
   \<and> snd (hashed_run c (hashed_init, a) ops) = a + card (set (activated c ops))
   \<and> (pointer_data p = Null \<longrightarrow>
        pointer_activate p i a = (p\<lparr>pointer_data := Heap a\<rparr>, Suc a))
   \<and> (pointer_data p \<noteq> Null \<longrightarrow> pointer_activate p i a = (p, a))
   \<and> pointer_data (fst (pointer_activate p i a)) \<noteq> Null
   \<and> (pointer_data p \<noteq> Null \<longrightarrow> pointer_run c (p, a) ops = (p, a))"
proof -
  have 2: "umap_find (hashed_data s) i \<noteq> None \<longrightarrow> hashed_activate s i a = (s, a)"
    by (auto simp: hashed_activate_present)
  from 2 show ?thesis
    by (simp add: hashed_activate_absent hashed_activate_records hashed_run_keeps
        hashed_run_allocations pointer_activate_null pointer_activate_set
        pointer_activate_sets pointer_run_set)
qed

theorem activate_allocates_once_witness:
  "umap_find (hashed_data hashed_init) 5 = None
   \<and> hashed_activate hashed_init 5 0 = (\<lparr>hashed_data = [(5, Heap 0)]\<rparr>, 1)
   \<and> umap_find (hashed_data \<lparr>hashed_data = [(5, Heap 0)]\<rparr>) 5 = Some (Heap 0)
   \<and> hashed_activate \<lparr>hashed_data = [(5, Heap 0)]\<rparr> 5 1
       = (\<lparr>hashed_data = [(5, Heap 0)]\<rparr>, 1)
   \<and> umap_find (hashed_data (fst (hashed_run Host (\<lparr>hashed_data = [(5, Heap 0)]\<rparr>, 1)
          [N_activate 5, N_look_up 6, N_look_up 5]))) 5 = Some (Heap 0)
   \<and> pointer_data pointer_init = Null
   \<and> pointer_activate pointer_init 0 0 = (\<lparr>pointer_data = Heap 0\<rparr>, 1)
   \<and> pointer_data \<lparr>pointer_data = Heap 0\<rparr> \<noteq> Null
   \<and> pointer_activate \<lparr>pointer_data = Heap 0\<rparr> 0 1 = (\<lparr>pointer_data = Heap 0\<rparr>, 1)
   \<and> pointer_run Host (\<lparr>pointer_data = Heap 0\<rparr>, 1) [N_activate 0, N_look_up 0]
        = (\<lparr>pointer_data = Heap 0\<rparr>, 1)"
  using activate_allocates_once[of hashed_init 5 0 "Heap 0" Host "[]" pointer_init]
    activate_allocates_once[of "\<lparr>hashed_data = [(5, Heap 0)]\<rparr>" 5 1 "Heap 0" Host
        "[N_activate 5, N_look_up 6, N_look_up 5]" "\<lparr>pointer_data = Heap 0\<rparr>"]
    activate_allocates_once[of hashed_init 0 0 "Heap 0" Host "[]" pointer_init]
    activate_allocates_once[of hashed_init 0 1 "Heap 0" Host "[N_activate 0, N_look_up 0]"
        "\<lparr>pointer_data = Heap 0\<rparr>"]
  by (simp add: hashed_init_def pointer_init_def umap_find_def)

subsection \<open>\<open>get_n\<close>\<close>



end
